theory Spec2Isabelle
  imports Complex_Main "HOL-Library.Sublist"
begin

section \<open>Time and text formatting\<close>

text \<open>
  A Go \<open>time.Time\<close> is modelled as the instant it denotes, in nanoseconds since the Unix
  epoch. A \<open>time.Duration\<close> is a signed 64-bit count of nanoseconds; its arithmetic wraps
  around, which \<open>wrap64\<close> writes out.
\<close>

type_synonym time = int

definition wrap64 :: "int \<Rightarrow> int" where
  "wrap64 x = (x + 2 ^ 63) mod 2 ^ 64 - 2 ^ 63"

definition Second :: int where
  "Second = 1000000000"

definition Minute :: int where
  "Minute = 60 * Second"

definition digit :: "nat \<Rightarrow> char" where
  "digit d = ''0123456789'' ! (d mod 10)"

fun show_nat :: "nat \<Rightarrow> string" where
  "show_nat n = (if n < 10 then [digit n] else show_nat (n div 10) @ [digit n])"

declare show_nat.simps [simp del]

definition pad2 :: "nat \<Rightarrow> string" where
  "pad2 n = (if n < 10 then CHR ''0'' # show_nat n else show_nat n)"

definition pad4 :: "nat \<Rightarrow> string" where
  "pad4 n = replicate (4 - length (show_nat n)) CHR ''0'' @ show_nat n"

text \<open>
  The civil date of a day number (days since 1970-01-01), proleptic Gregorian calendar.
\<close>

definition civil_from_days :: "int \<Rightarrow> int \<times> int \<times> int" where
  "civil_from_days days =
     (let z = days + 719468;
          era = z div 146097;
          doe = z mod 146097;
          yoe = (doe - doe div 1460 + doe div 36524 - doe div 146096) div 365;
          doy = doe - (365 * yoe + yoe div 4 - yoe div 100);
          mp = (5 * doy + 2) div 153;
          d = doy - (153 * mp + 2) div 5 + 1;
          m = (if mp < 10 then mp + 3 else mp - 9);
          y = yoe + era * 400 + (if m \<le> 2 then 1 else 0)
      in (y, m, d))"

text \<open>
  \<open>t.Format("2006-01-02 15:04:05")\<close>: the instant printed to whole seconds; the
  fraction of a second is dropped. The zone of the process is taken to be UTC.
\<close>

definition Format :: "time \<Rightarrow> string" where
  "Format t =
     (let secs = t div Second;
          (y, m, d) = civil_from_days (secs div 86400);
          sod = secs mod 86400
      in pad4 (nat y) @ ''-'' @ pad2 (nat m) @ ''-'' @ pad2 (nat d) @ '' '' @
         pad2 (nat (sod div 3600)) @ '':'' @ pad2 (nat (sod mod 3600 div 60)) @ '':'' @
         pad2 (nat (sod mod 60)))"

text \<open>
  \<open>fmt.Sprintf("%.2f", x)\<close> for a finite \<open>float64\<close>: the exact value rounded to two
  decimals, ties to even. A \<open>float64\<close> is modelled as the rational number it denotes;
  NaN and the infinities, which a MySQL DOUBLE cannot hold, are left out.
\<close>

definition round_half_even :: "rat \<Rightarrow> int" where
  "round_half_even x =
     (let f = \<lfloor>x\<rfloor>; d = x - of_int f
      in if d < 1 / 2 then f else if 1 / 2 < d then f + 1
         else if even f then f else f + 1)"

definition fmt_f2 :: "rat \<Rightarrow> string" where
  "fmt_f2 x =
     (let n = nat (round_half_even (\<bar>x\<bar> * 100))
      in (if x < 0 then ''-'' else '''') @ show_nat (n div 100) @ ''.'' @ pad2 (n mod 100))"

section \<open>Alert rules and alerts\<close>

text \<open>\<open>models.AlertRule\<close>. \<open>TimeWindow\<close> is a Go \<open>int\<close>, a number of minutes.\<close>

record AlertRule =
  rID :: nat
  Name :: string
  Description :: string
  Condition :: string
  Threshold :: rat
  TimeWindow :: int
  rSeverity :: string
  Enabled :: bool

text \<open>
  \<open>models.Alert\<close>, a row of the \<open>alerts\<close> table. The preloaded \<open>Rule\<close> association is
  not a column and is left out, and so is the column \<open>updated_at\<close>, which the struct does
  not have. Times are kept as the program sends them.
\<close>

record Alert =
  ID :: nat
  RuleID :: nat
  Message :: string
  Severity :: string
  Value :: rat
  Status :: string
  CreatedAt :: time
  ResolvedAt :: "time option"
  AcknowledgedAt :: "time option"

text \<open>\<open>models.AlertFilter\<close>, without \<open>Limit\<close> and \<open>Offset\<close>, which the engine never sets.\<close>

record AlertFilter =
  fStatus :: "string option"
  fSeverity :: "string option"
  fRuleID :: "nat option"
  fFrom :: "time option"
  fTo :: "time option"

datatype eval_error = QueryFailed | CheckExistingFailed | CreateFailed

datatype log_event =
    AlertCreated nat
  | AlertResolved nat
  | ResolveFailed nat
  | EvaluateFailed eval_error nat
  | HandlerFailed string

text \<open>
  The state the engine and the HTTP handlers share: the \<open>alerts\<close> table in insertion
  order, its AUTO_INCREMENT counter, and the lines written to the logger.
\<close>

record sys =
  rows :: "Alert list"
  next_id :: nat
  logged :: "log_event list"

definition init_sys :: sys where
  "init_sys = \<lparr>rows = [], next_id = 1, logged = []\<rparr>"

datatype db_error = DBError

section \<open>The alert repository\<close>

text \<open>
  Every repository call takes a flag \<open>ok\<close>: whether the database carried the statement
  out. A statement that fails changes nothing.
\<close>

definition CreateAlert :: "bool \<Rightarrow> Alert \<Rightarrow> sys \<Rightarrow> db_error option \<times> sys" where
  "CreateAlert ok a st =
     (if \<not> ok then (Some DBError, st)
      else if ID a = 0
        then (None, st\<lparr>rows := rows st @ [a\<lparr>ID := next_id st\<rparr>], next_id := Suc (next_id st)\<rparr>)
      else if ID a \<in> ID ` set (rows st) then (Some DBError, st)
      else (None, st\<lparr>rows := rows st @ [a], next_id := max (next_id st) (Suc (ID a))\<rparr>))"

definition matches :: "AlertFilter \<Rightarrow> Alert \<Rightarrow> bool" where
  "matches f a \<longleftrightarrow>
     (case fStatus f of None \<Rightarrow> True | Some s \<Rightarrow> Status a = s) \<and>
     (case fSeverity f of None \<Rightarrow> True | Some s \<Rightarrow> Severity a = s) \<and>
     (case fRuleID f of None \<Rightarrow> True | Some r \<Rightarrow> RuleID a = r) \<and>
     (case fFrom f of None \<Rightarrow> True | Some t \<Rightarrow> t \<le> CreatedAt a) \<and>
     (case fTo f of None \<Rightarrow> True | Some t \<Rightarrow> CreatedAt a \<le> t)"

definition GetAlerts :: "bool \<Rightarrow> AlertFilter \<Rightarrow> sys \<Rightarrow> db_error + Alert list" where
  "GetAlerts ok f st =
     (if \<not> ok then Inl DBError
      else Inr (rev (sort_key CreatedAt (filter (matches f) (rows st)))))"

definition ResolveAlert :: "bool \<Rightarrow> time \<Rightarrow> nat \<Rightarrow> sys \<Rightarrow> db_error option \<times> sys" where
  "ResolveAlert ok now i st =
     (if \<not> ok then (Some DBError, st)
      else (None, st\<lparr>rows := map (\<lambda>a. if ID a = i
                then a\<lparr>Status := ''resolved'', ResolvedAt := Some now\<rparr> else a) (rows st)\<rparr>))"

definition AcknowledgeAlert :: "bool \<Rightarrow> time \<Rightarrow> nat \<Rightarrow> sys \<Rightarrow> db_error option \<times> sys" where
  "AcknowledgeAlert ok now i st =
     (if \<not> ok then (Some DBError, st)
      else (None, st\<lparr>rows := map (\<lambda>a. if ID a = i
                then a\<lparr>Status := ''acknowledged'', AcknowledgedAt := Some now\<rparr> else a) (rows st)\<rparr>))"

section \<open>The alert evaluation engine\<close>

definition nl :: char where
  "nl = CHR 0x0A"

definition tab :: char where
  "tab = CHR 0x09"

definition quote :: char where
  "quote = CHR 0x27"

text \<open>
  The local \<open>timeWindow\<close> of \<open>buildQuery\<close>:
  \<open>time.Now().Add(-time.Duration(rule.TimeWindow) * time.Minute)\<close>. The negation and the
  product are 64-bit and wrap around.
\<close>

definition window_start :: "time \<Rightarrow> AlertRule \<Rightarrow> time" where
  "window_start now rule = now + wrap64 (wrap64 (- TimeWindow rule) * Minute)"

text \<open>
  \<open>buildQuery\<close>: the text that \<open>fmt.Sprintf\<close> produces from the template, with the rule's
  condition and the printed window start put in place of the two \<open>%s\<close>.
\<close>

definition buildQuery :: "time \<Rightarrow> AlertRule \<Rightarrow> string" where
  "buildQuery now rule =
     [nl, tab, tab] @ ''SELECT '' @ Condition rule @ '' '' @
     [nl, tab, tab] @ ''FROM logs '' @
     [nl, tab, tab] @ ''WHERE created_at >= '' @ [quote] @ Format (window_start now rule) @ [quote] @
     [nl, tab]"

text \<open>
  What the database answers to \<open>QueryRowContext(ctx, query).Scan(&result)\<close>: an error
  (also when the single column is NULL), no row, or one number.
\<close>

datatype query_result = QueryError | NoRows | Row rat

text \<open>
  The surroundings of one call of \<open>evaluateRule\<close>: the clock readings, the answer of the
  database to each query text, and which repository calls succeed. The calls that resolve
  an alert are told apart by the alert's id.
\<close>

record rule_env =
  query_now :: time
  run_query :: "string \<Rightarrow> query_result"
  get_ok :: bool
  create_now :: time
  create_ok :: bool
  resolve_now :: "nat \<Rightarrow> time"
  resolve_ok :: "nat \<Rightarrow> bool"

definition active_filter :: "AlertRule \<Rightarrow> AlertFilter" where
  "active_filter rule =
     \<lparr>fStatus = Some ''active'', fSeverity = None, fRuleID = Some (rID rule),
      fFrom = None, fTo = None\<rparr>"

definition alert_message :: "AlertRule \<Rightarrow> rat \<Rightarrow> string" where
  "alert_message rule result =
     ''Alert rule '' @ [quote] @ Name rule @ [quote] @ '' triggered: '' @ Condition rule @
     '' = '' @ fmt_f2 result @ '' (threshold: '' @ fmt_f2 (Threshold rule) @ '')''"

definition new_alert :: "rule_env \<Rightarrow> AlertRule \<Rightarrow> rat \<Rightarrow> Alert" where
  "new_alert env rule result =
     \<lparr>ID = 0, RuleID = rID rule, Message = alert_message rule result,
      Severity = rSeverity rule, Value = result, Status = ''active'',
      CreatedAt = create_now env, ResolvedAt = None, AcknowledgedAt = None\<rparr>"

text \<open>The loop over \<open>activeAlerts\<close> in the branch below the threshold.\<close>

fun resolve_each :: "rule_env \<Rightarrow> Alert list \<Rightarrow> sys \<Rightarrow> sys" where
  "resolve_each env [] st = st"
| "resolve_each env (a # as) st =
     (case ResolveAlert (resolve_ok env (ID a)) (resolve_now env (ID a)) (ID a) st of
        (Some e, st') \<Rightarrow>
          resolve_each env as (st'\<lparr>logged := logged st' @ [ResolveFailed (ID a)]\<rparr>)
      | (None, st') \<Rightarrow>
          resolve_each env as (st'\<lparr>logged := logged st' @ [AlertResolved (ID a)]\<rparr>))"

definition evaluateRule :: "rule_env \<Rightarrow> AlertRule \<Rightarrow> sys \<Rightarrow> eval_error option \<times> sys" where
  "evaluateRule env rule st =
     (case run_query env (buildQuery (query_now env) rule) of
        QueryError \<Rightarrow> (Some QueryFailed, st)
      | NoRows \<Rightarrow> (None, st)
      | Row result \<Rightarrow>
          if Threshold rule \<le> result then
            (case GetAlerts (get_ok env) (active_filter rule) st of
               Inl e \<Rightarrow> (Some CheckExistingFailed, st)
             | Inr activeAlerts \<Rightarrow>
                 if length activeAlerts = 0 then
                   (case CreateAlert (create_ok env) (new_alert env rule result) st of
                      (Some e, st') \<Rightarrow> (Some CreateFailed, st')
                    | (None, st') \<Rightarrow>
                        (None, st'\<lparr>logged := logged st' @ [AlertCreated (rID rule)]\<rparr>))
                 else (None, st))
          else
            (case GetAlerts (get_ok env) (active_filter rule) st of
               Inl e \<Rightarrow> (Some CheckExistingFailed, st)
             | Inr activeAlerts \<Rightarrow> (None, resolve_each env activeAlerts st)))"

text \<open>
  \<open>CheckAlertRules\<close>: one evaluation cycle. \<open>world\<close> gives the surroundings of the
  evaluation of each rule, by the rule's id. \<open>check_loop\<close> is the \<open>for\<close> loop.
\<close>

fun check_loop :: "(nat \<Rightarrow> rule_env) \<Rightarrow> AlertRule list \<Rightarrow> sys \<Rightarrow> sys" where
  "check_loop world [] st = st"
| "check_loop world (rule # rules) st =
     (if \<not> Enabled rule then check_loop world rules st
      else (case evaluateRule (world (rID rule)) rule st of
              (Some err, st') \<Rightarrow>
                check_loop world rules
                  (st'\<lparr>logged := logged st' @ [EvaluateFailed err (rID rule)]\<rparr>)
            | (None, st') \<Rightarrow> check_loop world rules st'))"

datatype check_error = GetRulesFailed

definition CheckAlertRules ::
  "(nat \<Rightarrow> rule_env) \<Rightarrow> bool \<Rightarrow> AlertRule list \<Rightarrow> sys \<Rightarrow> check_error option \<times> sys" where
  "CheckAlertRules world rules_ok rules st =
     (if \<not> rules_ok then (Some GetRulesFailed, st)
      else (None, check_loop world rules st))"

text \<open>The alerts of a rule that are active: what the engine asks the repository for.\<close>

definition active_alerts :: "nat \<Rightarrow> sys \<Rightarrow> Alert list" where
  "active_alerts r st = filter (\<lambda>a. RuleID a = r \<and> Status a = ''active'') (rows st)"

text \<open>
  The row that \<open>ResolveAlert\<close> leaves behind for an alert resolved at \<open>now\<close>.
\<close>

definition resolved_at :: "time \<Rightarrow> Alert \<Rightarrow> Alert" where
  "resolved_at now a = a\<lparr>Status := ''resolved'', ResolvedAt := Some now\<rparr>"

section \<open>The HTTP handlers of alerts\<close>

text \<open>
  \<open>strconv.ParseUint(idStr, 10, 32)\<close>: a non-empty run of decimal digits, without sign,
  whose value fits 32 bits.
\<close>

definition digit_of :: "char \<Rightarrow> nat option" where
  "digit_of c = map_of
     [(CHR ''0'', 0), (CHR ''1'', 1), (CHR ''2'', 2), (CHR ''3'', 3), (CHR ''4'', 4),
      (CHR ''5'', 5), (CHR ''6'', 6), (CHR ''7'', 7), (CHR ''8'', 8), (CHR ''9'', 9)] c"

fun parse_digits :: "nat \<Rightarrow> string \<Rightarrow> nat option" where
  "parse_digits acc [] = Some acc"
| "parse_digits acc (c # cs) =
     (case digit_of c of None \<Rightarrow> None | Some d \<Rightarrow> parse_digits (10 * acc + d) cs)"

definition ParseUint32 :: "string \<Rightarrow> nat option" where
  "ParseUint32 s =
     (if s = [] then None
      else (case parse_digits 0 s of
              None \<Rightarrow> None
            | Some n \<Rightarrow> if n < 2 ^ 32 then Some n else None))"

text \<open>A response: the status code and the text of the JSON body.\<close>

type_synonym response = "nat \<times> string"

definition AlertHandler_ResolveAlert :: "bool \<Rightarrow> time \<Rightarrow> string \<Rightarrow> sys \<Rightarrow> response \<times> sys" where
  "AlertHandler_ResolveAlert ok now idStr st =
     (case ParseUint32 idStr of
        None \<Rightarrow> ((400, ''Invalid alert ID''), st)
      | Some i \<Rightarrow>
          (case ResolveAlert ok now i st of
             (Some e, st') \<Rightarrow>
               ((500, ''Failed to resolve alert''),
                st'\<lparr>logged := logged st' @ [HandlerFailed ''Failed to resolve alert'']\<rparr>)
           | (None, st') \<Rightarrow> ((200, ''Alert resolved successfully''), st')))"

definition AlertHandler_AcknowledgeAlert ::
  "bool \<Rightarrow> time \<Rightarrow> string \<Rightarrow> sys \<Rightarrow> response \<times> sys" where
  "AlertHandler_AcknowledgeAlert ok now idStr st =
     (case ParseUint32 idStr of
        None \<Rightarrow> ((400, ''Invalid alert ID''), st)
      | Some i \<Rightarrow>
          (case AcknowledgeAlert ok now i st of
             (Some e, st') \<Rightarrow>
               ((500, ''Failed to acknowledge alert''),
                st'\<lparr>logged := logged st' @ [HandlerFailed ''Failed to acknowledge alert'']\<rparr>)
           | (None, st') \<Rightarrow> ((200, ''Alert acknowledged successfully''), st')))"

section \<open>The alert lifecycle as a whole\<close>

text \<open>
  The operations that write alerts, each carried out as a whole before the next begins:
  the evaluation of one rule, a whole evaluation cycle, and the two repository calls that
  the HTTP handlers make.
\<close>

datatype op =
    Evaluate rule_env AlertRule
  | Cycle "nat \<Rightarrow> rule_env" bool "AlertRule list"
  | Resolve bool time nat
  | Acknowledge bool time nat

fun apply_op :: "sys \<Rightarrow> op \<Rightarrow> sys" where
  "apply_op st (Evaluate env rule) = snd (evaluateRule env rule st)"
| "apply_op st (Cycle world rules_ok rules) = snd (CheckAlertRules world rules_ok rules st)"
| "apply_op st (Resolve ok now i) = snd (ResolveAlert ok now i st)"
| "apply_op st (Acknowledge ok now i) = snd (AcknowledgeAlert ok now i st)"

definition run :: "op list \<Rightarrow> sys \<Rightarrow> sys" where
  "run ops st = foldl apply_op st ops"

section \<open>Log records\<close>

text \<open>\<open>models.Log\<close>, a row of the \<open>logs\<close> table.\<close>

record Log =
  lID :: nat
  Timestamp :: time
  Level :: string
  Service :: string
  lMessage :: string
  TraceID :: "string option"
  UserID :: "string option"
  RequestMethod :: "string option"
  RequestPath :: "string option"
  ResponseStatus :: "int option"
  ResponseTimeMs :: "int option"
  lCreatedAt :: time



section \<open>The batch consumer\<close>

text \<open>The zero \<open>time.Time\<close>, January 1 of year 1, which \<open>IsZero\<close> recognises.\<close>

definition zero_time :: time where
  "zero_time = - 62135596800 * Second"

definition DefaultBatchSize :: int where
  "DefaultBatchSize = 20"

text \<open>
  What the \<open>select\<close> of \<open>ConsumeClaim\<close> receives: a message of the claim, given by its
  value and the two readings of the clock made while it is handled; the firing of the
  batch timer; the end of the session.
\<close>

datatype event = Msg string time time | TimerFired | SessionDone

datatype consumer_log = UnmarshalFailed | BatchFailed nat

text \<open>
  The worker: the batch under construction, every call of \<open>processBatch\<close> so far with
  its argument, the rows written to \<open>logs\<close>, the number of messages marked as
  consumed, and the errors logged.
\<close>

record worker =
  batch :: "Log list"
  flushes :: "Log list list"
  stored :: "Log list"
  marked :: nat
  errors :: "consumer_log list"

definition init_worker :: worker where
  "init_worker = \<lparr>batch = [], flushes = [], stored = [], marked = 0, errors = []\<rparr>"

text \<open>
  The service: its batch size, \<open>json.Unmarshal\<close> into a \<open>models.Log\<close> (\<open>None\<close> when it
  fails), and whether the database carries out the \<open>n\<close>-th batch insert.
\<close>

record LogProcessorService =
  batchSize :: int
  unmarshal :: "string \<Rightarrow> Log option"
  insert_ok :: "nat \<Rightarrow> bool"

text \<open>
  \<open>CreateLogBatch\<close>, reached from \<open>processBatch\<close> through \<open>HandleLogBatch\<close>: nothing to do
  for an empty batch, otherwise one insert of all the records in order, in one
  transaction.
\<close>

definition CreateLogBatch :: "bool \<Rightarrow> Log list \<Rightarrow> Log list \<Rightarrow> db_error option \<times> Log list" where
  "CreateLogBatch ok logs tbl =
     (if length logs = 0 then (None, tbl)
      else if \<not> ok then (Some DBError, tbl)
      else (None, tbl @ logs))"

definition processBatch :: "LogProcessorService \<Rightarrow> worker \<Rightarrow> db_error option \<times> worker" where
  "processBatch s w =
     (case CreateLogBatch (insert_ok s (length (flushes w))) (batch w) (stored w) of
        (err, tbl) \<Rightarrow> (err, w\<lparr>flushes := flushes w @ [batch w], stored := tbl\<rparr>))"

text \<open>
  A flush as \<open>ConsumeClaim\<close> does it on a full batch and on the timer: the error is
  logged, and the batch is emptied whatever the outcome.
\<close>

definition flush :: "LogProcessorService \<Rightarrow> worker \<Rightarrow> worker" where
  "flush s w =
     (case processBatch s w of
        (Some e, w') \<Rightarrow> w'\<lparr>batch := [], errors := errors w' @ [BatchFailed (length (batch w))]\<rparr>
      | (None, w') \<Rightarrow> w'\<lparr>batch := []\<rparr>)"

definition stamp :: "time \<Rightarrow> time \<Rightarrow> Log \<Rightarrow> Log" where
  "stamp t1 t2 l =
     (let l1 = (if Timestamp l = zero_time then l\<lparr>Timestamp := t1\<rparr> else l)
      in if lCreatedAt l1 = zero_time then l1\<lparr>lCreatedAt := t2\<rparr> else l1)"

text \<open>
  \<open>ConsumeClaim\<close>, run on the events it receives in turn. It returns at the end of the
  session; when the events run out before, it is left waiting in the state reached. The
  closing of the channel of messages is not among the events.
\<close>

fun ConsumeClaim :: "LogProcessorService \<Rightarrow> event list \<Rightarrow> worker \<Rightarrow> worker" where
  "ConsumeClaim s [] w = w"
| "ConsumeClaim s (Msg v t1 t2 # es) w =
     (case unmarshal s v of
        None \<Rightarrow>
          ConsumeClaim s es (w\<lparr>marked := Suc (marked w), errors := errors w @ [UnmarshalFailed]\<rparr>)
      | Some l \<Rightarrow>
          (let w1 = w\<lparr>batch := batch w @ [stamp t1 t2 l], marked := Suc (marked w)\<rparr>
           in if batchSize s \<le> int (length (batch w1))
              then ConsumeClaim s es (flush s w1)
              else ConsumeClaim s es w1))"
| "ConsumeClaim s (TimerFired # es) w =
     (if 0 < length (batch w) then ConsumeClaim s es (flush s w) else ConsumeClaim s es w)"
| "ConsumeClaim s (SessionDone # es) w =
     (if 0 < length (batch w)
      then (case processBatch s w of
              (Some e, w') \<Rightarrow> w'\<lparr>errors := errors w' @ [BatchFailed (length (batch w))]\<rparr>
            | (None, w') \<Rightarrow> w')
      else w)"

text \<open>
  The records that a run of events brings into the batch, in the order of arrival: each
  message that unmarshals, stamped. \<open>is_msg\<close> tells the messages from the other events.
\<close>

fun decoded :: "LogProcessorService \<Rightarrow> event list \<Rightarrow> Log list" where
  "decoded s [] = []"
| "decoded s (Msg v t1 t2 # es) =
     (case unmarshal s v of None \<Rightarrow> decoded s es | Some l \<Rightarrow> stamp t1 t2 l # decoded s es)"
| "decoded s (e # es) = decoded s es"

definition is_msg :: "event \<Rightarrow> bool" where
  "is_msg e = (case e of Msg v t1 t2 \<Rightarrow> True | _ \<Rightarrow> False)"

section \<open>The migration runner\<close>

text \<open>
  The functions of package \<open>strings\<close> that the runner uses, on ASCII text.
\<close>

definition is_space :: "char \<Rightarrow> bool" where
  "is_space c \<longleftrightarrow> c \<in> set [CHR '' '', CHR 0x09, CHR 0x0A, CHR 0x0B, CHR 0x0C, CHR 0x0D]"

definition TrimSpace :: "string \<Rightarrow> string" where
  "TrimSpace s = rev (dropWhile is_space (rev (dropWhile is_space s)))"

definition HasPrefix :: "string \<Rightarrow> string \<Rightarrow> bool" where
  "HasPrefix s p \<longleftrightarrow> take (length p) s = p"

definition upper :: "char \<Rightarrow> char" where
  "upper c =
     (case map_of (zip ''abcdefghijklmnopqrstuvwxyz'' ''ABCDEFGHIJKLMNOPQRSTUVWXYZ'') c of
        None \<Rightarrow> c
      | Some u \<Rightarrow> u)"

definition ToUpper :: "string \<Rightarrow> string" where
  "ToUpper s = map upper s"









definition is_use :: "string \<Rightarrow> bool" where
  "is_use statement \<longleftrightarrow> HasPrefix (ToUpper statement) ''USE ''"




text \<open>
  The statements of a migration that run inside its transaction: all but the empty ones
  and the \<open>USE\<close> statements.
\<close>

definition transaction_statements :: "string list \<Rightarrow> string list" where
  "transaction_statements stmts =
     filter (\<lambda>statement. \<not> is_use statement)
       (filter (\<lambda>statement. statement \<noteq> []) (map TrimSpace (map TrimSpace stmts)))"

section \<open>Invariants\<close>

text \<open>No rule has more than one active alert.\<close>

definition one_active :: "sys \<Rightarrow> bool" where
  "one_active st \<longleftrightarrow> (\<forall>r. length (active_alerts r st) \<le> 1)"

text \<open>
  The primary key of \<open>alerts\<close>: no two rows have the same id, and every id is below the
  AUTO_INCREMENT counter.
\<close>

definition keyed :: "sys \<Rightarrow> bool" where
  "keyed st \<longleftrightarrow> distinct (map ID (rows st)) \<and> list_all (\<lambda>a. ID a < next_id st) (rows st)"

section \<open>Scenarios\<close>

text \<open>
  The rule "High Error Count" of the sample rules, an instant \<open>t0\<close> (2024-01-01
  00:00:00 UTC), and surroundings in which every call succeeds and the aggregate query
  gives a fixed answer.
\<close>

definition rule_A :: AlertRule where
  "rule_A =
     \<lparr>rID = 6, Name = ''High Error Count'',
      Description = ''Alert when error count exceeds 5 in the last 5 minutes'',
      Condition = ''COUNT(CASE WHEN level = '' @ [quote] @ ''error'' @ [quote] @ '' THEN 1 END)'',
      Threshold = 5, TimeWindow = 5, rSeverity = ''high'', Enabled = True\<rparr>"

definition t0 :: time where
  "t0 = 1704067200 * Second"

definition env_at :: "time \<Rightarrow> query_result \<Rightarrow> rule_env" where
  "env_at now answer =
     \<lparr>query_now = now, run_query = (\<lambda>q. answer), get_ok = True, create_now = now,
      create_ok = True, resolve_now = (\<lambda>i. now), resolve_ok = (\<lambda>i. True)\<rparr>"

text \<open>The alert that the first evaluation of \<open>rule_A\<close> creates on the answer \<open>v\<close>.\<close>

definition alert_A :: "rat \<Rightarrow> Alert" where
  "alert_A v =
     \<lparr>ID = 1, RuleID = 6, Message = alert_message rule_A v, Severity = ''high'', Value = v,
      Status = ''active'', CreatedAt = t0, ResolvedAt = None, AcknowledgedAt = None\<rparr>"

definition sys_A :: "rat \<Rightarrow> sys" where
  "sys_A v = \<lparr>rows = [alert_A v], next_id = 2, logged = [AlertCreated 6]\<rparr>"

text \<open>
  Two rules evaluated in one cycle: the query of \<open>rule_B\<close> fails, the query of
  \<open>rule_A\<close> answers 6.
\<close>

definition rule_B :: AlertRule where
  "rule_B =
     \<lparr>rID = 2, Name = ''High Response Time'',
      Description = ''Alert when average response time exceeds 1000ms in the last 5 minutes'',
      Condition = ''AVG(response_time_ms)'',
      Threshold = 1000, TimeWindow = 5, rSeverity = ''medium'', Enabled = True\<rparr>"

definition world_D :: "nat \<Rightarrow> rule_env" where
  "world_D i = (if i = 2 then env_at t0 QueryError else env_at t0 (Row 6))"

text \<open>
  A rule whose condition is a subquery; a log record produced an hour before \<open>t0\<close> and
  stored at \<open>t0\<close>; a log record stored exactly five minutes before \<open>t0\<close>; a rule with a
  window of 153722868 minutes.
\<close>

definition rule_inj :: AlertRule where
  "rule_inj =
     rule_A\<lparr>rID := 9, Name := ''All logs'', Condition := ''(SELECT COUNT(*) FROM logs)''\<rparr>"

definition log_late :: Log where
  "log_late =
     \<lparr>lID = 1, Timestamp = t0 - 60 * Minute, Level = ''ERROR'', Service = ''api-gateway'',
      lMessage = ''Database connection failed'', TraceID = None, UserID = None,
      RequestMethod = None, RequestPath = None, ResponseStatus = None,
      ResponseTimeMs = None, lCreatedAt = t0\<rparr>"



text \<open>
  A worker with the default batch size and 41 messages, one a second, none of which
  carries its times.
\<close>

definition unmarshal_demo :: "string \<Rightarrow> Log option" where
  "unmarshal_demo v =
     (if v = ''{'' then None
      else Some (log_late\<lparr>lMessage := v, Timestamp := zero_time, lCreatedAt := zero_time\<rparr>))"

definition service_demo :: LogProcessorService where
  "service_demo =
     \<lparr>batchSize = DefaultBatchSize, unmarshal = unmarshal_demo, insert_ok = (\<lambda>n. True)\<rparr>"

definition msgs_demo :: "event list" where
  "msgs_demo = map (\<lambda>i. Msg (show_nat i) (t0 + int i * Second) (t0 + int i * Second)) [0..<41]"





section \<open>The alert lifecycle: proofs\<close>

lemma matches_active_filter:
  "matches (active_filter rule) = (\<lambda>a. RuleID a = rID rule \<and> Status a = ''active'')"
  by (rule ext) (auto simp: matches_def active_filter_def)

lemma set_GetAlerts:
  "GetAlerts True (active_filter rule) st = Inr (rev (sort_key CreatedAt (active_alerts (rID rule) st)))"
  by (simp add: GetAlerts_def matches_active_filter active_alerts_def)

lemma sorted_rev_empty: "rev (sort_key f xs) = [] \<longleftrightarrow> xs = []"
  by (metis length_0_conv length_rev length_sort)

lemma evaluateRule_error_unchanged:
  "evaluateRule env rule st = (Some e, st') \<Longrightarrow> st' = st"
  by (auto simp: evaluateRule_def GetAlerts_def CreateAlert_def
      split: query_result.splits if_splits sum.splits prod.splits option.splits)

text \<open>
  C2. When the aggregate query of a rule answers a value at or above the threshold
  (the threshold itself included): if the rule has no active alert and the repository
  calls succeed, \<open>evaluateRule\<close> adds exactly one alert, active, with the rule's severity
  and the value answered; if the rule has an active alert, \<open>evaluateRule\<close> changes
  nothing.
\<close>

theorem evaluateRule_at_or_above_threshold:
  assumes "run_query env (buildQuery (query_now env) rule) = Row v" and "Threshold rule \<le> v"
  shows "(active_alerts (rID rule) st = [] \<and> get_ok env \<and> create_ok env \<longrightarrow>
           evaluateRule env rule st =
             (None, st\<lparr>rows := rows st @
                       [\<lparr>ID = next_id st, RuleID = rID rule, Message = alert_message rule v,
                         Severity = rSeverity rule, Value = v, Status = ''active'',
                         CreatedAt = create_now env, ResolvedAt = None,
                         AcknowledgedAt = None\<rparr>],
                     next_id := Suc (next_id st),
                     logged := logged st @ [AlertCreated (rID rule)]\<rparr>)) \<and>
         (active_alerts (rID rule) st \<noteq> [] \<longrightarrow> snd (evaluateRule env rule st) = st)"
proof (intro conjI impI)
  assume h: "active_alerts (rID rule) st = [] \<and> get_ok env \<and> create_ok env"
  then show "evaluateRule env rule st =
             (None, st\<lparr>rows := rows st @
                       [\<lparr>ID = next_id st, RuleID = rID rule, Message = alert_message rule v,
                         Severity = rSeverity rule, Value = v, Status = ''active'',
                         CreatedAt = create_now env, ResolvedAt = None,
                         AcknowledgedAt = None\<rparr>],
                     next_id := Suc (next_id st),
                     logged := logged st @ [AlertCreated (rID rule)]\<rparr>)"
    using assms
    by (simp add: evaluateRule_def set_GetAlerts CreateAlert_def new_alert_def)
next
  assume h: "active_alerts (rID rule) st \<noteq> []"
  show "snd (evaluateRule env rule st) = st"
  proof (cases "get_ok env")
    case True
    then show ?thesis using assms h
      by (simp add: evaluateRule_def set_GetAlerts sorted_rev_empty)
  next
    case False
    then show ?thesis using assms
      by (simp add: evaluateRule_def GetAlerts_def)
  qed
qed

lemma resolved_at_twice [simp]: "resolved_at t (resolved_at t' a) = resolved_at t a"
  by (simp add: resolved_at_def)

lemma ID_resolved_at [simp]: "ID (resolved_at t a) = ID a"
  by (simp add: resolved_at_def)

lemma ResolveAlert_ok:
  "ResolveAlert True now i st =
     (None, st\<lparr>rows := map (\<lambda>a. if ID a = i then resolved_at now a else a) (rows st)\<rparr>)"
  by (simp add: ResolveAlert_def resolved_at_def)

lemma resolve_each_rows:
  assumes "\<forall>a \<in> set as. resolve_ok env (ID a)"
  shows "rows (resolve_each env as st) =
           map (\<lambda>a. if ID a \<in> ID ` set as then resolved_at (resolve_now env (ID a)) a else a)
             (rows st)"
  using assms
proof (induction as arbitrary: st)
  case Nil
  then show ?case by simp
next
  case (Cons b bs)
  then show ?case
    by (auto simp: ResolveAlert_ok)
qed

lemma resolve_each_next_id: "next_id (resolve_each env as st) = next_id st"
  by (induction as arbitrary: st) (auto simp: ResolveAlert_def split: prod.splits option.splits)

text \<open>
  C3. When the aggregate query of a rule answers a value below the threshold and the
  repository calls succeed, \<open>evaluateRule\<close> turns every active alert of the rule into
  a resolved one, with \<open>resolved_at\<close> the clock reading of its resolution, leaves every
  other alert as it is, and creates none.
\<close>

theorem evaluateRule_below_threshold:
  assumes "run_query env (buildQuery (query_now env) rule) = Row v"
    and "v < Threshold rule"
    and "get_ok env"
    and "\<forall>a \<in> set (active_alerts (rID rule) st). resolve_ok env (ID a)"
    and "distinct (map ID (rows st))"
  shows "fst (evaluateRule env rule st) = None \<and>
         rows (snd (evaluateRule env rule st)) =
           map (\<lambda>a. if RuleID a = rID rule \<and> Status a = ''active''
                     then a\<lparr>Status := ''resolved'', ResolvedAt := Some (resolve_now env (ID a))\<rparr>
                     else a) (rows st) \<and>
         next_id (snd (evaluateRule env rule st)) = next_id st"
proof -
  let ?as = "rev (sort_key CreatedAt (active_alerts (rID rule) st))"
  have ev: "evaluateRule env rule st = (None, resolve_each env ?as st)"
    using assms(1-3) by (simp add: evaluateRule_def set_GetAlerts)
  have set_as: "set ?as = set (active_alerts (rID rule) st)"
    by simp
  have ok: "\<forall>a \<in> set ?as. resolve_ok env (ID a)"
    using assms(4) by simp
  have inj: "inj_on ID (set (rows st))"
    using assms(5) by (simp add: distinct_map)
  have mem: "ID a \<in> ID ` set ?as \<longleftrightarrow> RuleID a = rID rule \<and> Status a = ''active''"
    if "a \<in> set (rows st)" for a
  proof
    assume "ID a \<in> ID ` set ?as"
    then obtain b where b: "b \<in> set (active_alerts (rID rule) st)" "ID a = ID b"
      by auto
    then have "b \<in> set (rows st)" by (simp add: active_alerts_def)
    with inj that b(2) have "a = b" by (auto dest: inj_onD)
    with b(1) show "RuleID a = rID rule \<and> Status a = ''active''"
      by (simp add: active_alerts_def)
  next
    assume "RuleID a = rID rule \<and> Status a = ''active''"
    with that have "a \<in> set (active_alerts (rID rule) st)"
      by (simp add: active_alerts_def)
    then show "ID a \<in> ID ` set ?as" by simp
  qed
  have "rows (resolve_each env ?as st) =
          map (\<lambda>a. if RuleID a = rID rule \<and> Status a = ''active''
                    then a\<lparr>Status := ''resolved'', ResolvedAt := Some (resolve_now env (ID a))\<rparr>
                    else a) (rows st)"
    unfolding resolve_each_rows [OF ok]
    by (rule map_cong) (auto simp: mem resolved_at_def simp del: set_rev set_sort)
  then show ?thesis
    by (simp add: ev resolve_each_next_id)
qed

lemma active_alerts_map_le:
  assumes "\<And>a. RuleID (g a) = RuleID a"
    and "\<And>a. Status (g a) = ''active'' \<Longrightarrow> Status a = ''active''"
  shows "length (active_alerts r (st\<lparr>rows := map g (rows st)\<rparr>)) \<le> length (active_alerts r st)"
proof -
  have "length (filter (\<lambda>a. RuleID a = r \<and> Status a = ''active'') (map g xs))
          \<le> length (filter (\<lambda>a. RuleID a = r \<and> Status a = ''active'') xs)" for xs
    using assms by (induction xs) auto
  then show ?thesis by (simp add: active_alerts_def)
qed

lemma active_alerts_logged [simp]:
  "active_alerts r (st\<lparr>logged := l\<rparr>) = active_alerts r st"
  by (simp add: active_alerts_def)

lemma ResolveAlert_le:
  "length (active_alerts r (snd (ResolveAlert ok now i st))) \<le> length (active_alerts r st)"
proof (cases ok)
  case True
  then have "snd (ResolveAlert ok now i st) =
      st\<lparr>rows := map (\<lambda>a. if ID a = i
            then a\<lparr>Status := ''resolved'', ResolvedAt := Some now\<rparr> else a) (rows st)\<rparr>"
    by (simp add: ResolveAlert_def)
  then show ?thesis
    by (simp only:) (rule active_alerts_map_le, auto split: if_splits)
next
  case False
  then show ?thesis by (simp add: ResolveAlert_def)
qed

lemma AcknowledgeAlert_le:
  "length (active_alerts r (snd (AcknowledgeAlert ok now i st))) \<le> length (active_alerts r st)"
proof (cases ok)
  case True
  then have "snd (AcknowledgeAlert ok now i st) =
      st\<lparr>rows := map (\<lambda>a. if ID a = i
            then a\<lparr>Status := ''acknowledged'', AcknowledgedAt := Some now\<rparr> else a) (rows st)\<rparr>"
    by (simp add: AcknowledgeAlert_def)
  then show ?thesis
    by (simp only:) (rule active_alerts_map_le, auto split: if_splits)
next
  case False
  then show ?thesis by (simp add: AcknowledgeAlert_def)
qed

lemma resolve_each_le:
  "length (active_alerts r (resolve_each env as st)) \<le> length (active_alerts r st)"
proof (induction as arbitrary: st)
  case Nil
  then show ?case by simp
next
  case (Cons a as)
  obtain e st' where r: "ResolveAlert (resolve_ok env (ID a)) (resolve_now env (ID a)) (ID a) st = (e, st')"
    by (cases "ResolveAlert (resolve_ok env (ID a)) (resolve_now env (ID a)) (ID a) st")
  have le: "length (active_alerts r st') \<le> length (active_alerts r st)"
    using ResolveAlert_le [of r "resolve_ok env (ID a)" "resolve_now env (ID a)" "ID a" st]
    by (simp add: r)
  show ?case
  proof (cases e)
    case None
    have "length (active_alerts r (resolve_each env as (st'\<lparr>logged := logged st' @ [AlertResolved (ID a)]\<rparr>)))
            \<le> length (active_alerts r st')"
      using Cons.IH [of "st'\<lparr>logged := logged st' @ [AlertResolved (ID a)]\<rparr>"] by simp
    with le show ?thesis by (simp add: r None)
  next
    case (Some x)
    have "length (active_alerts r (resolve_each env as (st'\<lparr>logged := logged st' @ [ResolveFailed (ID a)]\<rparr>)))
            \<le> length (active_alerts r st')"
      using Cons.IH [of "st'\<lparr>logged := logged st' @ [ResolveFailed (ID a)]\<rparr>"] by simp
    with le show ?thesis by (simp add: r Some)
  qed
qed

lemma evaluateRule_one_active:
  assumes "one_active st"
  shows "one_active (snd (evaluateRule env rule st))"
proof (cases "run_query env (buildQuery (query_now env) rule)")
  case QueryError
  then show ?thesis using assms by (simp add: evaluateRule_def)
next
  case NoRows
  then show ?thesis using assms by (simp add: evaluateRule_def)
next
  case (Row v)
  show ?thesis
  proof (cases "get_ok env")
    case False
    then show ?thesis using assms Row by (simp add: evaluateRule_def GetAlerts_def)
  next
    case True
    show ?thesis
    proof (cases "Threshold rule \<le> v")
      case below: False
      have "evaluateRule env rule st =
              (None, resolve_each env (rev (sort_key CreatedAt (active_alerts (rID rule) st))) st)"
        using Row True below by (simp add: evaluateRule_def set_GetAlerts)
      moreover have "one_active (resolve_each env as st)" for as
        unfolding one_active_def
        using assms resolve_each_le [of _ env as st]
        by (auto simp: one_active_def intro: order_trans)
      ultimately show ?thesis by simp
    next
      case above: True
      show ?thesis
      proof (cases "active_alerts (rID rule) st = []")
        case False
        then have "snd (evaluateRule env rule st) = st"
          using Row True above by (simp add: evaluateRule_def set_GetAlerts sorted_rev_empty)
        with assms show ?thesis by simp
      next
        case none: True
        show ?thesis
        proof (cases "create_ok env")
          case False
          then have "snd (evaluateRule env rule st) = st"
            using Row True above none
            by (simp add: evaluateRule_def set_GetAlerts CreateAlert_def)
          with assms show ?thesis by simp
        next
          case ok: True
          have "length (active_alerts r (snd (evaluateRule env rule st))) \<le> 1" for r
          proof (cases "r = rID rule")
            case True
            then show ?thesis
              using Row \<open>get_ok env\<close> above none ok
              by (simp add: evaluateRule_def set_GetAlerts CreateAlert_def new_alert_def
                  active_alerts_def)
          next
            case False
            then have "active_alerts r (snd (evaluateRule env rule st)) = active_alerts r st"
              using Row \<open>get_ok env\<close> above none ok
              by (simp add: evaluateRule_def set_GetAlerts CreateAlert_def new_alert_def
                  active_alerts_def)
            with assms show ?thesis by (simp add: one_active_def)
          qed
          then show ?thesis by (simp add: one_active_def)
        qed
      qed
    qed
  qed
qed

lemma check_loop_one_active:
  "one_active st \<Longrightarrow> one_active (check_loop world rules st)"
proof (induction rules arbitrary: st)
  case Nil
  then show ?case by simp
next
  case (Cons rule rules)
  show ?case
  proof (cases "Enabled rule")
    case False
    then show ?thesis using Cons by simp
  next
    case True
    obtain e st' where ev: "evaluateRule (world (rID rule)) rule st = (e, st')"
      by (cases "evaluateRule (world (rID rule)) rule st")
    have st': "one_active st'"
      using evaluateRule_one_active [OF Cons.prems, of "world (rID rule)" rule]
      by (simp add: ev)
    then have "one_active (st'\<lparr>logged := l\<rparr>)" for l
      by (simp add: one_active_def)
    then show ?thesis
      using True ev st' Cons.IH by (cases e) simp_all
  qed
qed

lemma apply_op_one_active:
  "one_active st \<Longrightarrow> one_active (apply_op st x)"
proof (cases x)
  case (Evaluate env rule)
  assume "one_active st"
  then show ?thesis using Evaluate by (simp add: evaluateRule_one_active)
next
  case (Cycle world rules_ok rules)
  assume "one_active st"
  then show ?thesis using Cycle by (simp add: CheckAlertRules_def check_loop_one_active)
next
  case (Resolve ok now i)
  assume "one_active st"
  then show ?thesis unfolding one_active_def Resolve apply_op.simps
    using ResolveAlert_le [of _ ok now i st] by (meson order_trans)
next
  case (Acknowledge ok now i)
  assume "one_active st"
  then show ?thesis unfolding one_active_def Acknowledge apply_op.simps
    using AcknowledgeAlert_le [of _ ok now i st] by (meson order_trans)
qed

lemma run_one_active: "one_active st \<Longrightarrow> one_active (run ops st)"
  unfolding run_def
  by (induction ops arbitrary: st) (simp_all add: apply_op_one_active)

lemma init_one_active: "one_active init_sys"
  by (simp add: one_active_def init_sys_def active_alerts_def)

text \<open>
  C1. With the operations carried out one after the other, every state reached from
  the empty table has at most one active alert for each rule, and each operation (the
  evaluation of a rule, a whole cycle, \<open>ResolveAlert\<close>, \<open>AcknowledgeAlert\<close>) keeps it so.
\<close>

theorem at_most_one_active_alert_per_rule:
  "length (active_alerts r (run ops init_sys)) \<le> 1 \<and>
   ((\<forall>q. length (active_alerts q st) \<le> 1) \<longrightarrow> length (active_alerts r (apply_op st x)) \<le> 1)"
  using run_one_active [OF init_one_active, of ops] apply_op_one_active [of st x]
  by (simp add: one_active_def)

theorem evaluateRule_at_or_above_threshold_witness:
  "run_query (env_at t0 (Row 5)) (buildQuery (query_now (env_at t0 (Row 5))) rule_A) = Row 5 \<and>
   Threshold rule_A \<le> 5 \<and>
   active_alerts (rID rule_A) init_sys = [] \<and>
   evaluateRule (env_at t0 (Row 5)) rule_A init_sys = (None, sys_A 5) \<and>
   Status (alert_A 5) = ''active'' \<and> Severity (alert_A 5) = rSeverity rule_A \<and>
   active_alerts (rID rule_A) (sys_A 5) \<noteq> [] \<and>
   snd (evaluateRule (env_at t0 (Row 5)) rule_A (sys_A 5)) = sys_A 5"
proof -
  have h1: "run_query (env_at t0 (Row 5)) (buildQuery (query_now (env_at t0 (Row 5))) rule_A) = Row 5"
    by (simp add: env_at_def)
  have h2: "Threshold rule_A \<le> 5"
    by (simp add: rule_A_def)
  have none: "active_alerts (rID rule_A) init_sys = []"
    by (simp add: active_alerts_def init_sys_def)
  have some: "active_alerts (rID rule_A) (sys_A 5) \<noteq> []"
    by (simp add: active_alerts_def sys_A_def alert_A_def rule_A_def)
  have ok: "get_ok (env_at t0 (Row 5)) \<and> create_ok (env_at t0 (Row 5))"
    by (simp add: env_at_def)
  from evaluateRule_at_or_above_threshold [OF h1 h2, of init_sys] none ok
  have "evaluateRule (env_at t0 (Row 5)) rule_A init_sys = (None, sys_A 5)"
    by (simp add: init_sys_def sys_A_def alert_A_def rule_A_def env_at_def)
  moreover from evaluateRule_at_or_above_threshold [OF h1 h2, of "sys_A 5"] some
  have "snd (evaluateRule (env_at t0 (Row 5)) rule_A (sys_A 5)) = sys_A 5"
    by simp
  ultimately show ?thesis
    using h1 h2 none some by (simp add: alert_A_def rule_A_def)
qed

theorem evaluateRule_below_threshold_witness:
  "run_query (env_at (t0 + 10 * Minute) (Row 2))
     (buildQuery (query_now (env_at (t0 + 10 * Minute) (Row 2))) rule_A) = Row 2 \<and>
   2 < Threshold rule_A \<and>
   rows (snd (evaluateRule (env_at (t0 + 10 * Minute) (Row 2)) rule_A (sys_A 6))) =
     [(alert_A 6)\<lparr>Status := ''resolved'', ResolvedAt := Some (t0 + 10 * Minute)\<rparr>] \<and>
   fst (evaluateRule (env_at (t0 + 10 * Minute) (Row 2)) rule_A (sys_A 6)) = None"
proof -
  let ?env = "env_at (t0 + 10 * Minute) (Row 2)"
  have h1: "run_query ?env (buildQuery (query_now ?env) rule_A) = Row 2"
    by (simp add: env_at_def)
  have h2: "2 < Threshold rule_A"
    by (simp add: rule_A_def)
  have h3: "get_ok ?env"
    by (simp add: env_at_def)
  have h4: "\<forall>a \<in> set (active_alerts (rID rule_A) (sys_A 6)). resolve_ok ?env (ID a)"
    by (simp add: env_at_def)
  have h5: "distinct (map ID (rows (sys_A 6)))"
    by (simp add: sys_A_def)
  from evaluateRule_below_threshold [OF h1 h2 h3 h4 h5]
  show ?thesis
    using h1 h2 by (simp add: sys_A_def alert_A_def rule_A_def env_at_def)
qed

text \<open>
  The witness of C1: the rule is evaluated twice at the threshold, its alert is
  acknowledged, the rule is evaluated again (a second alert becomes the active one),
  and the first alert is resolved.
\<close>

theorem at_most_one_active_alert_per_rule_witness:
  "length (active_alerts 6
     (run [Evaluate (env_at t0 (Row 5)) rule_A, Evaluate (env_at t0 (Row 5)) rule_A,
           Acknowledge True t0 1, Evaluate (env_at t0 (Row 6)) rule_A,
           Resolve True t0 1] init_sys)) \<le> 1 \<and>
   (\<forall>q. length (active_alerts q (sys_A 5)) \<le> 1) \<and>
   length (active_alerts 6 (apply_op (sys_A 5) (Evaluate (env_at t0 (Row 7)) rule_A))) \<le> 1"
proof -
  have h: "\<forall>q. length (active_alerts q (sys_A 5)) \<le> 1"
    by (simp add: active_alerts_def sys_A_def)
  from at_most_one_active_alert_per_rule
    [of 6 "[Evaluate (env_at t0 (Row 5)) rule_A, Evaluate (env_at t0 (Row 5)) rule_A,
           Acknowledge True t0 1, Evaluate (env_at t0 (Row 6)) rule_A,
           Resolve True t0 1]" "sys_A 5" "Evaluate (env_at t0 (Row 7)) rule_A"] h
  show ?thesis by simp
qed

lemma check_loop_append:
  "check_loop world (rs1 @ rs2) st = check_loop world rs2 (check_loop world rs1 st)"
  by (induction rs1 arbitrary: st) (auto split: prod.splits option.splits)

text \<open>
  C5. In a cycle over a list of rules, when the evaluation of an enabled rule fails, the
  failure is logged, the alerts are as they were, the rules after it in the list are
  evaluated from there in the same cycle, and the cycle returns no error.
\<close>

theorem CheckAlertRules_isolates_failure:
  assumes "Enabled rule"
    and "fst (evaluateRule (world (rID rule)) rule (check_loop world before st)) = Some err"
  shows "CheckAlertRules world True (before @ rule # after) st =
           (None, check_loop world after
              ((check_loop world before st)
                 \<lparr>logged := logged (check_loop world before st) @
                    [EvaluateFailed err (rID rule)]\<rparr>))"
proof -
  let ?st1 = "check_loop world before st"
  obtain st' where ev: "evaluateRule (world (rID rule)) rule ?st1 = (Some err, st')"
    using assms(2) by (cases "evaluateRule (world (rID rule)) rule ?st1") auto
  then have "st' = ?st1"
    by (rule evaluateRule_error_unchanged)
  with ev assms(1) show ?thesis
    by (simp add: CheckAlertRules_def check_loop_append)
qed

text \<open>
  The witness of C5: the query of the first rule fails, and the second rule still gets
  its alert in the same cycle.
\<close>

theorem CheckAlertRules_isolates_failure_witness:
  "Enabled rule_B \<and>
   fst (evaluateRule (world_D (rID rule_B)) rule_B (check_loop world_D [] init_sys)) = Some QueryFailed \<and>
   CheckAlertRules world_D True [rule_B, rule_A] init_sys =
     (None, \<lparr>rows = [alert_A 6], next_id = 2,
             logged = [EvaluateFailed QueryFailed 2, AlertCreated 6]\<rparr>)"
proof -
  have h1: "Enabled rule_B" by (simp add: rule_B_def)
  have h2: "fst (evaluateRule (world_D (rID rule_B)) rule_B (check_loop world_D [] init_sys)) = Some QueryFailed"
    by (simp add: evaluateRule_def world_D_def rule_B_def env_at_def)
  from CheckAlertRules_isolates_failure [OF h1 h2, of "[rule_A]"]
  have "CheckAlertRules world_D True [rule_B, rule_A] init_sys =
          (None, check_loop world_D [rule_A] (init_sys\<lparr>logged := [EvaluateFailed QueryFailed 2]\<rparr>))"
    by (simp add: init_sys_def rule_B_def)
  also have "check_loop world_D [rule_A] (init_sys\<lparr>logged := [EvaluateFailed QueryFailed 2]\<rparr>) =
      \<lparr>rows = [alert_A 6], next_id = 2,
             logged = [EvaluateFailed QueryFailed 2, AlertCreated 6]\<rparr>"
    by (simp add: init_sys_def rule_A_def world_D_def env_at_def evaluateRule_def GetAlerts_def
        active_filter_def matches_def CreateAlert_def new_alert_def alert_A_def)
  finally show ?thesis using h1 h2 by simp
qed



text \<open>
  C10. For an id that no stored alert has, \<open>ResolveAlert\<close> returns no error and leaves
  the state as it is, and the HTTP handler answers 200 with its message of success.
\<close>

theorem ResolveAlert_unknown_id:
  assumes "i \<notin> ID ` set (rows st)" and "ParseUint32 idStr = Some i"
  shows "ResolveAlert True now i st = (None, st) \<and>
         AlertHandler_ResolveAlert True now idStr st = ((200, ''Alert resolved successfully''), st)"
proof -
  have "map (\<lambda>a. if ID a = i then a\<lparr>Status := ''resolved'', ResolvedAt := Some now\<rparr> else a) (rows st) = rows st"
    using assms(1) by (intro map_idI) auto
  then have "ResolveAlert True now i st = (None, st)"
    by (simp add: ResolveAlert_def)
  then show ?thesis using assms(2)
    by (simp add: AlertHandler_ResolveAlert_def)
qed

theorem ResolveAlert_unknown_id_witness:
  "42 \<notin> ID ` set (rows (sys_A 6)) \<and> ParseUint32 ''42'' = Some 42 \<and>
   ResolveAlert True t0 42 (sys_A 6) = (None, sys_A 6) \<and>
   AlertHandler_ResolveAlert True t0 ''42'' (sys_A 6) = ((200, ''Alert resolved successfully''), sys_A 6)"
proof -
  have h1: "42 \<notin> ID ` set (rows (sys_A 6))" by (simp add: sys_A_def alert_A_def)
  have h2: "ParseUint32 ''42'' = Some 42" by (simp add: ParseUint32_def digit_of_def)
  from ResolveAlert_unknown_id [OF h1 h2] h1 h2 show ?thesis by simp
qed

subsection \<open>The primary key\<close>

lemma keyed_logged [simp]: "keyed (st\<lparr>logged := l\<rparr>) = keyed st"
  by (simp add: keyed_def)

lemma keyed_map:
  assumes "keyed st" and "\<And>a. ID (g a) = ID a"
  shows "keyed (st\<lparr>rows := map g (rows st)\<rparr>)"
proof -
  have "map ID (map g (rows st)) = map ID (rows st)"
    using assms(2) by simp
  then show ?thesis
    using assms by (simp add: keyed_def list_all_iff del: map_map)
qed

lemma ResolveAlert_keyed: "keyed st \<Longrightarrow> keyed (snd (ResolveAlert ok now i st))"
  unfolding ResolveAlert_def by (cases ok) (auto intro!: keyed_map)

lemma AcknowledgeAlert_keyed: "keyed st \<Longrightarrow> keyed (snd (AcknowledgeAlert ok now i st))"
  unfolding AcknowledgeAlert_def by (cases ok) (auto intro!: keyed_map)

lemma resolve_each_keyed: "keyed st \<Longrightarrow> keyed (resolve_each env as st)"
proof (induction as arbitrary: st)
  case Nil
  then show ?case by simp
next
  case (Cons a as)
  obtain e st' where r:
    "ResolveAlert (resolve_ok env (ID a)) (resolve_now env (ID a)) (ID a) st = (e, st')"
    by (cases "ResolveAlert (resolve_ok env (ID a)) (resolve_now env (ID a)) (ID a) st")
  have "keyed st'"
    using ResolveAlert_keyed [OF Cons.prems, of "resolve_ok env (ID a)" "resolve_now env (ID a)" "ID a"]
    by (simp add: r)
  then show ?case
    using Cons.IH by (cases e) (simp_all add: r)
qed

lemma CreateAlert_keyed: "keyed st \<Longrightarrow> keyed (snd (CreateAlert ok a st))"
  by (auto simp: CreateAlert_def keyed_def list_all_iff less_Suc_eq max_def)

lemma CreateAlert_keyed_result:
  "keyed st \<Longrightarrow> CreateAlert ok a st = (e, st') \<Longrightarrow> keyed st'"
  using CreateAlert_keyed [of st ok a] by simp

lemma evaluateRule_keyed: "keyed st \<Longrightarrow> keyed (snd (evaluateRule env rule st))"
  by (auto simp: evaluateRule_def GetAlerts_def resolve_each_keyed
      split: query_result.splits sum.splits prod.splits option.splits if_splits
      dest: CreateAlert_keyed_result)

lemma check_loop_keyed: "keyed st \<Longrightarrow> keyed (check_loop world rules st)"
proof (induction rules arbitrary: st)
  case Nil
  then show ?case by simp
next
  case (Cons rule rules)
  obtain e st' where ev: "evaluateRule (world (rID rule)) rule st = (e, st')"
    by (cases "evaluateRule (world (rID rule)) rule st")
  have "keyed st'"
    using evaluateRule_keyed [OF Cons.prems, of "world (rID rule)" rule] by (simp add: ev)
  then show ?case
    using Cons by (cases e) (simp_all add: ev)
qed

lemma apply_op_keyed: "keyed st \<Longrightarrow> keyed (apply_op st x)"
  by (cases x)
    (simp_all add: evaluateRule_keyed CheckAlertRules_def check_loop_keyed
      ResolveAlert_keyed AcknowledgeAlert_keyed)

lemma run_keyed: "keyed st \<Longrightarrow> keyed (run ops st)"
  unfolding run_def by (induction ops arbitrary: st) (simp_all add: apply_op_keyed)

text \<open>
  The ids of the alerts are distinct in every state reached from the empty table, which
  is what C3 asks of the state.
\<close>

lemma reachable_ids_distinct: "distinct (map ID (rows (run ops init_sys)))"
proof -
  have "keyed init_sys" by (simp add: keyed_def init_sys_def)
  then have "keyed (run ops init_sys)" by (rule run_keyed)
  then show ?thesis by (simp add: keyed_def)
qed

section \<open>The evaluation query: proofs\<close>






text \<open>
  C8, as amended. The text built by \<open>buildQuery\<close> begins with \<open>SELECT\<close>, the rule's
  condition as it stands, and \<open>FROM logs\<close>: the condition is put into the text by
  \<open>fmt.Sprintf\<close>, with no typed expression and no query parameter in between.
\<close>

theorem buildQuery_interpolates_condition:
  "prefix ([nl, tab, tab] @ ''SELECT '' @ Condition rule @ '' '' @ [nl, tab, tab] @ ''FROM logs '')
     (buildQuery now rule)"
  by (simp add: buildQuery_def)

text \<open>
  C8, as stated, fails: a condition that is a subquery over the whole table becomes
  part of the text sent to the database.
\<close>

theorem buildQuery_interpolates_condition_counterexample:
  "buildQuery t0 rule_inj =
     [nl, tab, tab] @ ''SELECT (SELECT COUNT(*) FROM logs) '' @
     [nl, tab, tab] @ ''FROM logs '' @
     [nl, tab, tab] @ ''WHERE created_at >= '' @ [quote] @ ''2023-12-31 23:55:00'' @ [quote] @
     [nl, tab]"
  by code_simp

section \<open>The batch consumer: proofs\<close>

lemma flush_simps [simp]:
  "batch (flush s w) = []"
  "flushes (flush s w) = flushes w @ [batch w]"
  by (auto simp: flush_def processBatch_def split: prod.splits option.splits)

lemma consume_msgs:
  assumes "0 < batchSize s" and "\<forall>e \<in> set es. is_msg e"
    and "int (length (batch w)) < batchSize s"
  shows "concat (flushes (ConsumeClaim s es w)) @ batch (ConsumeClaim s es w) =
           concat (flushes w) @ batch w @ decoded s es \<and>
         int (length (batch (ConsumeClaim s es w))) < batchSize s \<and>
         (\<exists>new. flushes (ConsumeClaim s es w) = flushes w @ new \<and>
                (\<forall>b \<in> set new. int (length b) = batchSize s))"
  using assms(2,3)
proof (induction es arbitrary: w)
  case Nil
  then show ?case by simp
next
  case (Cons e es)
  then obtain v t1 t2 where e: "e = Msg v t1 t2"
    by (cases e) (auto simp: is_msg_def)
  have rest: "\<forall>e \<in> set es. is_msg e" using Cons.prems(1) by simp
  show ?case
  proof (cases "unmarshal s v")
    case None
    let ?w = "w\<lparr>marked := Suc (marked w), errors := errors w @ [UnmarshalFailed]\<rparr>"
    have "int (length (batch ?w)) < batchSize s" using Cons.prems(2) by simp
    from Cons.IH [OF rest this] show ?thesis
      by (simp add: e None)
  next
    case (Some l)
    let ?w1 = "w\<lparr>batch := batch w @ [stamp t1 t2 l], marked := Suc (marked w)\<rparr>"
    show ?thesis
    proof (cases "batchSize s \<le> int (length (batch ?w1))")
      case True
      then have len: "int (length (batch ?w1)) = batchSize s"
        using Cons.prems(2) by simp
      have "int (length (batch (flush s ?w1))) < batchSize s"
        using assms(1) by simp
      from Cons.IH [OF rest this]
      obtain new where
        c: "concat (flushes (ConsumeClaim s es (flush s ?w1))) @ batch (ConsumeClaim s es (flush s ?w1)) =
           concat (flushes (flush s ?w1)) @ batch (flush s ?w1) @ decoded s es"
        and b: "int (length (batch (ConsumeClaim s es (flush s ?w1)))) < batchSize s"
        and n: "flushes (ConsumeClaim s es (flush s ?w1)) = flushes (flush s ?w1) @ new"
               "\<forall>b \<in> set new. int (length b) = batchSize s"
        by blast
      have ev: "ConsumeClaim s (e # es) w = ConsumeClaim s es (flush s ?w1)"
        using True by (simp add: e Some Let_def)
      have "flushes (ConsumeClaim s es (flush s ?w1)) = flushes w @ (batch ?w1 # new)"
        using n(1) by simp
      moreover have "\<forall>b \<in> set (batch ?w1 # new). int (length b) = batchSize s"
        using n(2) len by simp
      ultimately have "\<exists>new. flushes (ConsumeClaim s es (flush s ?w1)) = flushes w @ new \<and>
                (\<forall>b \<in> set new. int (length b) = batchSize s)"
        by blast
      moreover have "concat (flushes (flush s ?w1)) @ batch (flush s ?w1) @ decoded s es =
          concat (flushes w) @ batch w @ decoded s (e # es)"
        by (simp add: e Some)
      ultimately show ?thesis
        unfolding ev using c b by simp
    next
      case False
      then have lt: "int (length (batch ?w1)) < batchSize s" by simp
      have ev: "ConsumeClaim s (e # es) w = ConsumeClaim s es ?w1"
        using False by (simp add: e Some Let_def)
      have "concat (flushes ?w1) @ batch ?w1 @ decoded s es =
          concat (flushes w) @ batch w @ decoded s (e # es)"
        by (simp add: e Some)
      with Cons.IH [OF rest lt] show ?thesis
        unfolding ev by simp
    qed
  qed
qed

lemma ConsumeClaim_append:
  "\<forall>e \<in> set es. e \<noteq> SessionDone \<Longrightarrow>
   ConsumeClaim s (es @ es') w = ConsumeClaim s es' (ConsumeClaim s es w)"
proof (induction es arbitrary: w)
  case Nil
  then show ?case by simp
next
  case (Cons e es)
  then show ?case
    by (cases e) (auto simp: Let_def split: option.splits)
qed

lemma concat_length_all:
  "\<forall>b \<in> set xs. length b = n \<Longrightarrow> length (concat xs) = n * length xs"
  by (induction xs) auto

lemma ceil_div_step:
  fixes B k r :: nat
  assumes "0 < B" "r < B"
  shows "(B * k + r + B - 1) div B = k + (if r = 0 then 0 else 1)"
proof (cases "r = 0")
  case True
  have "(B * k + r + B - 1) div B = k"
  proof (rule div_nat_eqI)
    show "B * k \<le> B * k + r + B - 1" using assms by linarith
    show "B * k + r + B - 1 < B * Suc k" using assms True by simp
  qed
  with True show ?thesis by simp
next
  case False
  have "(B * k + r + B - 1) div B = Suc k"
  proof (rule div_nat_eqI)
    show "B * Suc k \<le> B * k + r + B - 1" using assms False by simp
    show "B * k + r + B - 1 < B * Suc (Suc k)" using assms by simp
  qed
  with False show ?thesis by simp
qed

text \<open>
  C7. When N records arrive and the timer does not fire before the last of them, a
  worker with batch size B > 0 calls the flush exactly ceil(N/B) times by the time the
  timer fires or the session ends; the flushes put one after the other are the records
  in the order of arrival, and every flush but the last holds exactly B records.
\<close>

theorem ConsumeClaim_flushes:
  assumes "0 < batchSize s" and "\<forall>e \<in> set es. is_msg e"
    and "final = TimerFired \<or> final = SessionDone"
  shows "length (flushes (ConsumeClaim s (es @ [final]) init_worker)) =
           (length (decoded s es) + nat (batchSize s) - 1) div nat (batchSize s) \<and>
         concat (flushes (ConsumeClaim s (es @ [final]) init_worker)) = decoded s es \<and>
         (\<forall>i. Suc i < length (flushes (ConsumeClaim s (es @ [final]) init_worker)) \<longrightarrow>
            length (flushes (ConsumeClaim s (es @ [final]) init_worker) ! i) = nat (batchSize s))"
proof -
  let ?B = "nat (batchSize s)"
  let ?w = "ConsumeClaim s es init_worker"
  have nd: "\<forall>e \<in> set es. e \<noteq> SessionDone"
    using assms(2) by (auto simp: is_msg_def)
  have start: "int (length (batch init_worker)) < batchSize s"
    using assms(1) by (simp add: init_worker_def)
  from consume_msgs [OF assms(1,2) start]
  obtain new where
    c: "concat (flushes ?w) @ batch ?w = decoded s es"
    and b: "int (length (batch ?w)) < batchSize s"
    and n: "flushes ?w = new" "\<forall>b \<in> set new. int (length b) = batchSize s"
    by (auto simp: init_worker_def)
  have nB: "\<forall>b \<in> set new. length b = ?B"
    using n(2) by auto
  have bB: "length (batch ?w) < ?B"
    using b by simp
  have B0: "0 < ?B" using assms(1) by simp
  have fin: "flushes (ConsumeClaim s (es @ [final]) init_worker) =
               (if batch ?w = [] then new else new @ [batch ?w])"
    using assms(3) n(1)
    by (auto simp: ConsumeClaim_append [OF nd] processBatch_def split: prod.splits option.splits)
  have N: "length (decoded s es) = ?B * length new + length (batch ?w)"
    using c n(1) concat_length_all [OF nB] by (metis length_append)
  have len: "(length (decoded s es) + ?B - 1) div ?B =
               length new + (if length (batch ?w) = 0 then 0 else 1)"
    unfolding N by (rule ceil_div_step [OF B0 bB])
  have cc: "concat (if batch ?w = [] then new else new @ [batch ?w]) = decoded s es"
    using c n(1) by auto
  have idx: "length ((if batch ?w = [] then new else new @ [batch ?w]) ! i) = ?B"
    if "Suc i < length (if batch ?w = [] then new else new @ [batch ?w])" for i
  proof -
    have "i < length new" using that by (auto split: if_splits)
    then have "(if batch ?w = [] then new else new @ [batch ?w]) ! i = new ! i"
      by (simp add: nth_append)
    moreover have "new ! i \<in> set new" using \<open>i < length new\<close> by simp
    ultimately show ?thesis using nB by simp
  qed
  show ?thesis
    unfolding fin using len cc idx by auto
qed

theorem ConsumeClaim_flushes_witness:
  "0 < batchSize service_demo \<and> list_all is_msg msgs_demo \<and>
   length (decoded service_demo msgs_demo) = 41 \<and>
   length (flushes (ConsumeClaim service_demo (msgs_demo @ [SessionDone]) init_worker)) = 3 \<and>
   concat (flushes (ConsumeClaim service_demo (msgs_demo @ [SessionDone]) init_worker)) =
     decoded service_demo msgs_demo \<and>
   length (flushes (ConsumeClaim service_demo (msgs_demo @ [SessionDone]) init_worker) ! 0) = 20 \<and>
   length (flushes (ConsumeClaim service_demo (msgs_demo @ [SessionDone]) init_worker) ! 1) = 20"
proof -
  have h1: "0 < batchSize service_demo"
    by (simp add: service_demo_def DefaultBatchSize_def)
  have h2: "\<forall>e \<in> set msgs_demo. is_msg e"
    by (auto simp: msgs_demo_def is_msg_def)
  have h3: "SessionDone = TimerFired \<or> SessionDone = SessionDone"
    by simp
  have n: "length (decoded service_demo msgs_demo) = 41"
    by code_simp
  have B: "nat (batchSize service_demo) = 20"
    by (simp add: service_demo_def DefaultBatchSize_def)
  from ConsumeClaim_flushes [OF h1 h2 h3] h1 h2 show ?thesis
    by (simp add: n B list_all_iff)
qed

section \<open>The migration runner: proofs\<close>

lemma TrimSpace_Nil [simp]: "TrimSpace [] = []"
  by (simp add: TrimSpace_def)








end
